theory Spec2Isabelle
  imports Complex_Main
begin

section \<open>Data model\<close>

text \<open>
  A Python \<open>str\<close> is a sequence of Unicode code points, and \<open>len\<close> counts code
  points. The texts of this plugin are mostly CJK, so a text is a list of code points
  (natural numbers), not a list of 8-bit characters.
\<close>

type_synonym pystr = "nat list"

text \<open>
  A message component is either \<open>Plain\<close> (the only variant the plugin inspects) or any
  other component (image, mention, ...), which is opaque and identified here by a number.
\<close>

datatype component = Plain pystr | Other nat

type_synonym chain = "component list"

fun is_plain :: "component \<Rightarrow> bool" where
  "is_plain (Plain t) = True"
| "is_plain (Other x) = False"

fun comp_text :: "component \<Rightarrow> pystr" where
  "comp_text (Plain t) = t"
| "comp_text (Other x) = []"

text \<open>\<open>"".join([c.text for c in chain if isinstance(c, Plain)])\<close>\<close>

definition plain_text :: "chain \<Rightarrow> pystr" where
  "plain_text c = concat (map comp_text (filter is_plain c))"

text \<open>The non-text components of a chain, in order.\<close>

definition non_text :: "chain \<Rightarrow> chain" where
  "non_text c = filter (\<lambda>x. \<not> is_plain x) c"

text \<open>A component that is not a \<open>Plain\<close> with empty text.\<close>

fun filled :: "component \<Rightarrow> bool" where
  "filled (Plain t) = (t \<noteq> [])"
| "filled (Other x) = True"

text \<open>An element of the list that \<open>re.split\<close> returns, read as text.\<close>

fun part_text :: "pystr option \<Rightarrow> pystr" where
  "part_text None = []"
| "part_text (Some t) = t"

text \<open>The Python slice \<open>t[a:b]\<close> for \<open>0 \<le> a\<close>, \<open>0 \<le> b\<close>.\<close>

definition slice :: "'a list \<Rightarrow> nat \<Rightarrow> nat \<Rightarrow> 'a list" where
  "slice t a b = take (b - a) (drop a t)"

section \<open>Segment-count capping (\<open>on_decorating_result\<close>, step 4)\<close>

text \<open>
  \<^verbatim>\<open>
  if len(segments) > max_segs and max_segs > 0:
      merged_last_segment = []
      trimmed_segments = segments[:max_segs-1]
      for seg in segments[max_segs-1:]:
          merged_last_segment.extend(seg)
      trimmed_segments.append(merged_last_segment)
      segments = trimmed_segments
  \<close>
  \<open>max_segs\<close> is a Python integer read from the configuration; inside the branch it is
  positive, so both slice bounds are non-negative.
\<close>

definition cap_segments :: "chain list \<Rightarrow> int \<Rightarrow> chain list" where
  "cap_segments segments max_segs =
     (if int (length segments) > max_segs \<and> max_segs > 0
      then take (nat (max_segs - 1)) segments @ [concat (drop (nat (max_segs - 1)) segments)]
      else segments)"

section \<open>The regular-expression engine\<close>

text \<open>
  Python's \<open>re\<close> module is a library the plugin calls, not code of the plugin. A
  compiled pattern is modelled by what the backtracking engine finds when it is run
  anchored at an offset \<open>i\<close> of a text \<open>t\<close>: the candidate matches in the order
  in which backtracking reaches them, each given by its end offset and by the strings
  captured by the pattern's own groups (\<open>None\<close> for a group that took no part in the
  match). The text and the offset are both arguments, as anchors and look-around see the
  whole text. Every regular expression denotes such a function; a pattern string is
  assumed to compile.
\<close>

type_synonym candidate = "nat \<times> pystr option list"

type_synonym pattern = "pystr \<Rightarrow> nat \<Rightarrow> candidate list"

text \<open>
  One anchored run: the first candidate that lies inside the text. With
  \<open>must_advance\<close> the engine rejects an empty match and backtracks into the next
  candidate (this is how \<open>split\<close> and \<open>sub\<close> step over an empty match).
\<close>

definition run_at :: "pattern \<Rightarrow> pystr \<Rightarrow> nat \<Rightarrow> bool \<Rightarrow> candidate option" where
  "run_at p t i must_advance =
     find (\<lambda>c. i \<le> fst c \<and> fst c \<le> length t \<and> (if must_advance then fst c \<noteq> i else True))
       (p t i)"

text \<open>\<open>re.compile(pattern).match(t, pos=i)\<close>; \<open>match.group()\<close> is \<open>t[i:e]\<close>.\<close>

definition re_match_at :: "pattern \<Rightarrow> pystr \<Rightarrow> nat \<Rightarrow> candidate option" where
  "re_match_at p t i = run_at p t i False"

text \<open>
  \<open>re.fullmatch(pattern, t)\<close>, used for its truth value only: the engine backtracks
  until a candidate ends at the end of the text.
\<close>

definition re_fullmatch :: "pattern \<Rightarrow> pystr \<Rightarrow> bool" where
  "re_fullmatch p t = (find (\<lambda>c. fst c = length t) (p t 0) \<noteq> None)"

text \<open>
  The successive non-overlapping matches that \<open>split\<close> and \<open>sub\<close> walk through
  (Python 3.7 and later), each as (start, end, groups). After a match the scan resumes at
  its end; after an empty match the next run at that offset must advance. A run that
  fails moves one code point to the right and may match the empty string again.
\<close>

function re_scan :: "pattern \<Rightarrow> pystr \<Rightarrow> nat \<Rightarrow> bool \<Rightarrow> (nat \<times> nat \<times> pystr option list) list" where
  "re_scan p t pos must_advance =
     (case run_at p t pos must_advance of
        Some c \<Rightarrow> (pos, fst c, snd c) # re_scan p t (fst c) (fst c = pos)
      | None \<Rightarrow> if pos < length t then re_scan p t (Suc pos) False else [])"
  by pat_completeness auto
termination
proof (relation "measure (\<lambda>(p, t, pos, adv). 2 * (length t - pos) + (if adv then 0 else 1))",
    goal_cases)
  case 1
  show ?case by simp
next
  case (2 p t pos must_advance)
  then show ?case by auto
next
  case (3 p t pos must_advance c)
  from 3 obtain k where "k < length (p t pos)" and "c = p t pos ! k" and
    "pos \<le> fst c \<and> fst c \<le> length t \<and> (if must_advance then fst c \<noteq> pos else True)"
    unfolding run_at_def find_Some_iff by blast
  then show ?case
    by (cases must_advance) auto
qed

text \<open>
  \<open>re.split(pattern, t)\<close>: the text before each match, then the groups of the match,
  and at the end the text after the last match.
\<close>

fun split_pieces :: "pystr \<Rightarrow> nat \<Rightarrow> (nat \<times> nat \<times> pystr option list) list \<Rightarrow> pystr option list" where
  "split_pieces t prev [] = [Some (drop prev t)]"
| "split_pieces t prev ((s, e, gs) # ms) = Some (slice t prev s) # gs @ split_pieces t e ms"

definition re_split :: "pattern \<Rightarrow> pystr \<Rightarrow> pystr option list" where
  "re_split p t = split_pieces t 0 (re_scan p t 0 False)"

text \<open>\<open>re.sub(pattern, "", t)\<close>: what is left of the text between the matches.\<close>

fun sub_pieces :: "pystr \<Rightarrow> nat \<Rightarrow> (nat \<times> nat \<times> pystr option list) list \<Rightarrow> pystr" where
  "sub_pieces t prev [] = drop prev t"
| "sub_pieces t prev ((s, e, gs) # ms) = slice t prev s @ sub_pieces t e ms"

definition re_sub_empty :: "pattern \<Rightarrow> pystr \<Rightarrow> pystr" where
  "re_sub_empty p t = sub_pieces t 0 (re_scan p t 0 False)"

text \<open>
  The pattern \<open>f"({pattern})"\<close>: one capturing group around the whole pattern, so that
  group 1 is the match itself and the pattern's own groups follow it.
\<close>

definition pat_group :: "pattern \<Rightarrow> pattern" where
  "pat_group p = (\<lambda>t i. map (\<lambda>c. (fst c, Some (slice t i (fst c)) # snd c)) (p t i))"

text \<open>
  Concrete patterns. \<open>pat_class_plus cs\<close> is \<open>[cs]+\<close>: greedy, so the longest run of
  class members first, then the shorter ones down to a single code point.
  \<open>pat_empty\<close> is the empty pattern, which matches the empty string at every offset.
\<close>

definition pat_class_plus :: "nat list \<Rightarrow> pattern" where
  "pat_class_plus cs =
     (\<lambda>t i. map (\<lambda>k. (i + k, [])) (rev [1..<Suc (length (takeWhile (\<lambda>c. c \<in> set cs) (drop i t)))]))"

definition pat_empty :: pattern where
  "pat_empty = (\<lambda>t i. [(i, [])])"

text \<open>
  \<open>pat_lookahead c d\<close> is the code point \<open>c\<close> followed by a look-ahead for
  \<open>d\<close>, as in a full stop that a space follows: it matches \<open>c\<close> alone, and only
  where \<open>d\<close> comes next in the text.
\<close>

definition pat_lookahead :: "nat \<Rightarrow> nat \<Rightarrow> pattern" where
  "pat_lookahead c d =
     (\<lambda>t i. if Suc i < length t \<and> t ! i = c \<and> t ! Suc i = d then [(Suc i, [])] else [])"

section \<open>The segmenter\<close>

text \<open>
  \<open>self.pair_map\<close>: the curly double quotes, the CJK title marks, the full-width and
  ASCII parentheses, square and curly brackets, and the two ASCII quotes, which close
  themselves.
\<close>

definition pair_map :: "nat \<rightharpoonup> nat" where
  "pair_map = map_of
     [(0x201C, 0x201D), (0x300A, 0x300B), (0xFF08, 0xFF09), (0x28, 0x29),
      (0x5B, 0x5D), (0x7B, 0x7D), (0x22, 0x22), (0x27, 0x27)]"

subsection \<open>\<open>_process_text_simple\<close>\<close>

text \<open>
  The body of \<open>for part in parts\<close> on the state (segments, buffer, temp_text). A part
  is \<open>None\<close> for a group that took no part in the match; \<open>not part\<close> skips it and
  the empty string.
\<close>

fun simple_part :: "pattern \<Rightarrow> chain list \<times> chain \<times> pystr \<Rightarrow> pystr option \<Rightarrow> chain list \<times> chain \<times> pystr" where
  "simple_part pat (segments, buffer, temp_text) None = (segments, buffer, temp_text)"
| "simple_part pat (segments, buffer, temp_text) (Some part) =
     (if part = [] then (segments, buffer, temp_text)
      else if re_fullmatch pat part
        then (segments @ [buffer @ [Plain (temp_text @ part)]], [], [])
      else (segments, (if temp_text \<noteq> [] then buffer @ [Plain temp_text] else buffer), part))"

definition process_text_simple :: "pystr \<Rightarrow> pattern \<Rightarrow> chain list \<Rightarrow> chain \<Rightarrow> chain list \<times> chain" where
  "process_text_simple txt pat segments buffer =
     (case foldl (simple_part pat) (segments, buffer, []) (re_split (pat_group pat) txt) of
        (segments', buffer', temp_text) \<Rightarrow>
          (segments', if temp_text \<noteq> [] then buffer' @ [Plain temp_text] else buffer'))"

subsection \<open>\<open>_process_text_smart\<close>\<close>

text \<open>
  The state of the \<open>while i < n\<close> loop. The stack is a Python list: \<open>append\<close> adds at
  the end, \<open>stack[-1]\<close> is the last element and \<open>pop()\<close> removes it.
\<close>

record smart_state =
  s_i :: nat
  s_stack :: "nat list"
  s_chunk :: pystr
  s_segments :: "chain list"
  s_buffer :: chain

text \<open>One iteration of the loop body; it is only run while \<open>i < n\<close>.\<close>

definition smart_step :: "pattern \<Rightarrow> pystr \<Rightarrow> smart_state \<Rightarrow> smart_state" where
  "smart_step pat t s =
     (let c = t ! s_i s; is_opener = (pair_map c \<noteq> None) in
      if c = 0x22 \<or> c = 0x27 then
        (if s_stack s \<noteq> [] \<and> last (s_stack s) = c
         then s\<lparr>s_stack := butlast (s_stack s), s_chunk := s_chunk s @ [c], s_i := s_i s + 1\<rparr>
         else s\<lparr>s_stack := s_stack s @ [c], s_chunk := s_chunk s @ [c], s_i := s_i s + 1\<rparr>)
      else if s_stack s \<noteq> [] then
        s\<lparr>s_stack := (if pair_map (last (s_stack s)) = Some c then butlast (s_stack s)
                      else if is_opener then s_stack s @ [c] else s_stack s),
          s_chunk := s_chunk s @ [c], s_i := s_i s + 1\<rparr>
      else if is_opener then
        s\<lparr>s_stack := s_stack s @ [c], s_chunk := s_chunk s @ [c], s_i := s_i s + 1\<rparr>
      else
        (case re_match_at pat t (s_i s) of
           Some m \<Rightarrow>
             (let delimiter = slice t (s_i s) (fst m) in
              s\<lparr>s_segments := s_segments s @ [s_buffer s @ [Plain (s_chunk s @ delimiter)]],
                s_buffer := [], s_chunk := [], s_i := s_i s + length delimiter\<rparr>)
         | None \<Rightarrow> s\<lparr>s_chunk := s_chunk s @ [c], s_i := s_i s + 1\<rparr>))"

text \<open>
  The loop itself. An empty delimiter leaves \<open>i\<close> where it is, so the loop need not
  end: not returning is the value \<open>None\<close>.
\<close>

partial_function (option) smart_loop :: "pattern \<Rightarrow> pystr \<Rightarrow> smart_state \<Rightarrow> smart_state option" where
  "smart_loop pat t s =
     (if s_i s < length t then smart_loop pat t (smart_step pat t s) else Some s)"

declare smart_loop.simps [code]

definition process_text_smart :: "pystr \<Rightarrow> pattern \<Rightarrow> chain list \<Rightarrow> chain \<Rightarrow> (chain list \<times> chain) option" where
  "process_text_smart txt pat segments buffer =
     (case smart_loop pat txt
             \<lparr>s_i = 0, s_stack = [], s_chunk = [], s_segments = segments, s_buffer = buffer\<rparr> of
        None \<Rightarrow> None
      | Some s \<Rightarrow>
          Some (s_segments s,
                if s_chunk s \<noteq> [] then s_buffer s @ [Plain (s_chunk s)] else s_buffer s))"

subsection \<open>\<open>split_chain_smart\<close>\<close>

text \<open>The \<open>for component in chain\<close> loop on the state (segments, current_chain_buffer).\<close>

fun chain_loop :: "pattern \<Rightarrow> bool \<Rightarrow> chain \<Rightarrow> chain list \<times> chain \<Rightarrow> (chain list \<times> chain) option" where
  "chain_loop pat smart_mode [] st = Some st"
| "chain_loop pat smart_mode (Other x # cs) (segments, buffer) =
     chain_loop pat smart_mode cs (segments, buffer @ [Other x])"
| "chain_loop pat smart_mode (Plain txt # cs) (segments, buffer) =
     (if txt = [] then chain_loop pat smart_mode cs (segments, buffer)
      else if \<not> smart_mode
        then chain_loop pat smart_mode cs (process_text_simple txt pat segments buffer)
      else (case process_text_smart txt pat segments buffer of
              None \<Rightarrow> None
            | Some st \<Rightarrow> chain_loop pat smart_mode cs st))"

definition split_chain_smart :: "chain \<Rightarrow> pattern \<Rightarrow> bool \<Rightarrow> chain list option" where
  "split_chain_smart c pat smart_mode =
     (case chain_loop pat smart_mode c ([], []) of
        None \<Rightarrow> None
      | Some (segments, buffer) \<Rightarrow>
          Some (filter (\<lambda>seg. seg \<noteq> [])
                  (if buffer \<noteq> [] then segments @ [buffer] else segments)))"

text \<open>
  The default of \<open>split_regex\<close> in the code is the raw string
  \<open>r"[\<dots>\\n\<dots>]+"\<close>: inside the class, the two backslashes are one escaped backslash
  and \<open>n\<close> is the letter. The class is therefore the ideographic full stop, the
  full-width question and exclamation marks, \<open>?\<close>, \<open>!\<close>, the backslash, the letter
  \<open>n\<close> and the horizontal ellipsis.
\<close>

definition default_split_pattern :: pattern where
  "default_split_pattern =
     pat_class_plus [0x3002, 0xFF1F, 0xFF01, 0x3F, 0x21, 0x5C, 0x6E, 0x2026]"

section \<open>Configuration and delay\<close>

text \<open>
  The configuration is a dictionary read with \<open>config.get(key, default)\<close>: a field
  is \<open>None\<close> when the key is absent. Patterns are stored compiled; \<open>clean_regex\<close>
  is only ever tested for truth before it is used, so for it \<open>None\<close> also stands
  for the empty string. Python floats are idealised as real numbers (no rounding).
\<close>

record config =
  split_regex :: "pattern option"
  clean_regex :: "pattern option"
  enable_smart_split :: "bool option"
  max_segments :: "int option"
  delay_strategy :: "string option"
  random_min :: "real option"
  random_max :: "real option"
  log_base :: "real option"
  log_factor :: "real option"
  fixed_delay :: "real option"

definition config_get :: "'a option \<Rightarrow> 'a \<Rightarrow> 'a" where
  "config_get v d = (case v of None \<Rightarrow> d | Some x \<Rightarrow> x)"

text \<open>
  \<open>calculate_delay\<close>. \<open>random.uniform(mn, mx)\<close> is \<open>mn + (mx - mn) * u\<close> for a draw
  \<open>u\<close> from the unit interval, which is an argument here.
\<close>

definition calculate_delay :: "config \<Rightarrow> real \<Rightarrow> pystr \<Rightarrow> real" where
  "calculate_delay cfg u txt =
     (let strategy = config_get (delay_strategy cfg) ''log'' in
      if strategy = ''random'' then
        (let mn = config_get (random_min cfg) 1.0; mx = config_get (random_max cfg) 3.0
         in mn + (mx - mn) * u)
      else if strategy = ''log'' then
        (let base = config_get (log_base cfg) 0.5;
             factor = config_get (log_factor cfg) 0.8;
             delay = base + factor * ln (real (length txt) + 1)
         in min delay 5.0)
      else config_get (fixed_delay cfg) 1.5)"

section \<open>The dispatch loop and \<open>on_decorating_result\<close>\<close>

text \<open>
  What the handler does to the outside world is a trace: \<open>Send i c\<close> hands chain
  \<open>c\<close> to \<open>send_message\<close> in iteration \<open>i\<close>, \<open>Sleep i txt\<close> awaits
  \<open>calculate_delay(txt)\<close> in iteration \<open>i\<close>, and \<open>LogSendFailed i\<close> is the
  \<open>except Exception\<close> branch. Whether the send of iteration \<open>i\<close> returns or raises
  is decided by the collaborator, here \<open>ok i\<close>.
\<close>

datatype action = Send nat chain | Sleep nat pystr | LogSendFailed nat

text \<open>The cleanup of one component: \<open>if isinstance(comp, Plain) and comp.text\<close>.\<close>

fun clean_component :: "pattern \<Rightarrow> component \<Rightarrow> component" where
  "clean_component cp (Plain t) = (if t \<noteq> [] then Plain (re_sub_empty cp t) else Plain t)"
| "clean_component cp (Other x) = Other x"

text \<open>
  One iteration of \<open>for i, segment_chain in enumerate(segments)\<close>, where \<open>n\<close> is
  \<open>len(segments)\<close>. The components cleaned in place are the \<open>Plain\<close> objects that the
  segmenter created, each of which belongs to one segment only.
\<close>

definition dispatch_body :: "pattern option \<Rightarrow> (nat \<Rightarrow> bool) \<Rightarrow> nat \<Rightarrow> nat \<Rightarrow> chain \<Rightarrow> action list" where
  "dispatch_body clean_pattern ok n i segment_chain =
     (if segment_chain = [] then []
      else
        (let cleaned = (case clean_pattern of
                          None \<Rightarrow> segment_chain
                        | Some cp \<Rightarrow> map (clean_component cp) segment_chain);
             text_content = plain_text cleaned;
             is_only_text = list_all is_plain cleaned
         in if is_only_text \<and> text_content = [] then []
            else if ok i then
              Send i cleaned # (if int i < int n - 1 then [Sleep i text_content] else [])
            else [Send i cleaned, LogSendFailed i]))"

definition dispatch :: "pattern option \<Rightarrow> (nat \<Rightarrow> bool) \<Rightarrow> chain list \<Rightarrow> action list" where
  "dispatch clean_pattern ok segments =
     concat (map (\<lambda>(i, segment_chain). dispatch_body clean_pattern ok (length segments) i segment_chain)
               (enumerate 0 segments))"

text \<open>
  The event carries the two marker attributes and the result, whose chain is
  \<open>None\<close> when there is no result object.
\<close>

record event =
  is_llm_reply :: bool
  splitter_processed :: bool
  result_chain :: "chain option"

text \<open>
  \<open>on_decorating_result\<close> returns the event as it leaves it and the trace;
  \<open>None\<close> when the segmenter does not return.
\<close>

definition on_decorating_result :: "config \<Rightarrow> (nat \<Rightarrow> bool) \<Rightarrow> event \<Rightarrow> (event \<times> action list) option" where
  "on_decorating_result cfg ok ev =
     (if \<not> is_llm_reply ev then Some (ev, [])
      else if splitter_processed ev then Some (ev, [])
      else
        (let ev1 = ev\<lparr>splitter_processed := True\<rparr> in
         case result_chain ev1 of
           None \<Rightarrow> Some (ev1, [])
         | Some c \<Rightarrow>
             if c = [] then Some (ev1, [])
             else
               (let split_pattern = config_get (split_regex cfg) default_split_pattern;
                    clean_pattern = clean_regex cfg;
                    smart_mode = config_get (enable_smart_split cfg) True;
                    max_segs = config_get (max_segments cfg) 7
                in case split_chain_smart c split_pattern smart_mode of
                     None \<Rightarrow> None
                   | Some segments0 \<Rightarrow>
                       (let segments = cap_segments segments0 max_segs in
                        if length segments \<le> 1 \<and> clean_pattern = None then Some (ev1, [])
                        else Some (ev1\<lparr>result_chain := Some []\<rparr>,
                                   dispatch clean_pattern ok segments)))))"

text \<open>A sender that never raises.\<close>

definition always_ok :: "nat \<Rightarrow> bool" where
  "always_ok i = True"

text \<open>A configuration with no key set: every \<open>get\<close> returns its default.\<close>

definition default_config :: config where
  "default_config =
     \<lparr>split_regex = None, clean_regex = None, enable_smart_split = None, max_segments = None,
      delay_strategy = None, random_min = None, random_max = None, log_base = None,
      log_factor = None, fixed_delay = None\<rparr>"

section \<open>Loop and evaluation lemmas\<close>

subsection \<open>Unrolling the loops\<close>

lemma smart_loop_step:
  "s_i s < length t \<Longrightarrow> smart_loop pat t s = smart_loop pat t (smart_step pat t s)"
  by (subst smart_loop.simps) simp

lemma smart_loop_stop: "\<not> s_i s < length t \<Longrightarrow> smart_loop pat t s = Some s"
  by (subst smart_loop.simps) simp

lemma re_scan_Some:
  "run_at p t pos adv = Some c \<Longrightarrow>
   re_scan p t pos adv = (pos, fst c, snd c) # re_scan p t (fst c) (fst c = pos)"
  by (subst re_scan.simps) simp

lemma re_scan_None:
  "run_at p t pos adv = None \<Longrightarrow>
   re_scan p t pos adv = (if pos < length t then re_scan p t (Suc pos) False else [])"
  by (subst re_scan.simps) simp

declare re_scan.simps [simp del]

lemmas regex_eval = re_split_def re_sub_empty_def re_scan_Some re_scan_None run_at_def
  re_match_at_def re_fullmatch_def pat_group_def pat_class_plus_def pat_empty_def slice_def
  default_split_pattern_def

lemmas smart_eval = split_chain_smart_def process_text_smart_def smart_loop_step
  smart_loop_stop smart_step_def pair_map_def Let_def

lemmas simple_eval = split_chain_smart_def process_text_simple_def

subsection \<open>Divergence\<close>

lemma smart_step_empty_match:
  assumes "s_stack s = []" and "pair_map (t ! s_i s) = None"
    and "re_match_at pat t (s_i s) = Some m" and "fst m = s_i s"
  shows "s_i (smart_step pat t s) = s_i s \<and> s_stack (smart_step pat t s) = []"
proof -
  from assms(2) have "t ! s_i s \<noteq> 0x22" "t ! s_i s \<noteq> 0x27"
    by (auto simp: pair_map_def)
  with assms show ?thesis
    by (simp add: smart_step_def slice_def)
qed

lemma smart_loop_empty_match:
  assumes "s_i s < length t" and "s_stack s = []" and "pair_map (t ! s_i s) = None"
    and "re_match_at pat t (s_i s) = Some m" and "fst m = s_i s"
  shows "smart_loop pat t s = None"
proof (rule ccontr)
  assume "smart_loop pat t s \<noteq> None"
  then obtain y where y: "smart_loop pat t s = Some y" by auto
  let ?stuck = "\<lambda>pat t s. s_i s < length t \<and> s_stack s = [] \<and> pair_map (t ! s_i s) = None \<and>
     (case re_match_at pat t (s_i s) of None \<Rightarrow> False | Some m \<Rightarrow> fst m = s_i s)"
  have "\<not> ?stuck pat t s"
  proof (rule smart_loop.raw_induct [where P = "\<lambda>pat t s y. \<not> ?stuck pat t s", OF _ y])
    fix f pat t s y
    assume ih: "\<And>pat t s y. f pat t s = Some y \<Longrightarrow> \<not> ?stuck pat t s"
      and eq: "(if s_i s < length t then f pat t (smart_step pat t s) else Some s) = Some y"
    show "\<not> ?stuck pat t s"
    proof
      assume st: "?stuck pat t s"
      then obtain m where m: "re_match_at pat t (s_i s) = Some m" "fst m = s_i s"
        by (auto split: option.splits)
      from st m have k: "s_i (smart_step pat t s) = s_i s \<and> s_stack (smart_step pat t s) = []"
        by (intro smart_step_empty_match) auto
      from st eq have "f pat t (smart_step pat t s) = Some y" by simp
      from ih [OF this] st k m show False by simp
    qed
  qed
  with assms show False by simp
qed

subsection \<open>The smart loop: progress and invariants\<close>

lemma run_at_bounds:
  assumes "run_at p t i adv = Some c"
  shows "i \<le> fst c" and "fst c \<le> length t" and "adv \<Longrightarrow> fst c \<noteq> i"
proof -
  from assms obtain k where
    "i \<le> fst c \<and> fst c \<le> length t \<and> (if adv then fst c \<noteq> i else True)"
    unfolding run_at_def find_Some_iff by blast
  then show "i \<le> fst c" and "fst c \<le> length t" and "adv \<Longrightarrow> fst c \<noteq> i"
    by (simp_all split: if_splits)
qed

lemma slice_length: "a \<le> b \<Longrightarrow> b \<le> length t \<Longrightarrow> length (slice t a b) = b - a"
  by (simp add: slice_def)

lemma slice_drop: "a \<le> b \<Longrightarrow> b \<le> length t \<Longrightarrow> slice t a b @ drop b t = drop a t"
proof -
  assume h: "a \<le> b" "b \<le> length t"
  have "take (b - a) (drop a t) @ drop (b - a) (drop a t) = drop a t"
    by (rule append_take_drop_id)
  with h show ?thesis by (simp add: slice_def)
qed

text \<open>What one iteration does, case by case.\<close>

lemma smart_step_cases:
  assumes "s_i s < length t"
  obtains
    (consume) "s_segments (smart_step pat t s) = s_segments s"
      "s_buffer (smart_step pat t s) = s_buffer s"
      "s_chunk (smart_step pat t s) = s_chunk s @ [t ! s_i s]"
      "s_i (smart_step pat t s) = s_i s + 1"
  | (split) m where "s_stack s = []" "pair_map (t ! s_i s) = None"
      "re_match_at pat t (s_i s) = Some m"
      "s_segments (smart_step pat t s) =
         s_segments s @ [s_buffer s @ [Plain (s_chunk s @ slice t (s_i s) (fst m))]]"
      "s_buffer (smart_step pat t s) = []"
      "s_chunk (smart_step pat t s) = []"
      "s_i (smart_step pat t s) = s_i s + length (slice t (s_i s) (fst m))"
proof (cases "t ! s_i s = 0x22 \<or> t ! s_i s = 0x27 \<or> s_stack s \<noteq> [] \<or> pair_map (t ! s_i s) \<noteq> None
     \<or> re_match_at pat t (s_i s) = None")
  case True
  then have "s_segments (smart_step pat t s) = s_segments s \<and>
      s_buffer (smart_step pat t s) = s_buffer s \<and>
      s_chunk (smart_step pat t s) = s_chunk s @ [t ! s_i s] \<and>
      s_i (smart_step pat t s) = s_i s + 1"
    by (auto simp: smart_step_def Let_def)
  then show ?thesis by (intro consume) simp_all
next
  case False
  then obtain m where m: "re_match_at pat t (s_i s) = Some m" by auto
  from False m have "s_segments (smart_step pat t s) =
         s_segments s @ [s_buffer s @ [Plain (s_chunk s @ slice t (s_i s) (fst m))]] \<and>
      s_buffer (smart_step pat t s) = [] \<and> s_chunk (smart_step pat t s) = [] \<and>
      s_i (smart_step pat t s) = s_i s + length (slice t (s_i s) (fst m))"
    by (simp add: smart_step_def Let_def)
  with False m show ?thesis by (intro split [of m]) auto
qed

lemma smart_step_advances:
  assumes lt: "s_i s < length t" and ret: "smart_loop pat t s = Some y"
  shows "s_i s < s_i (smart_step pat t s)"
  using lt
proof (cases rule: smart_step_cases [where pat = pat])
  case consume
  then show ?thesis by simp
next
  case (split m)
  from split(3) have b: "s_i s \<le> fst m" "fst m \<le> length t"
    by (auto simp: re_match_at_def dest: run_at_bounds)
  have "fst m \<noteq> s_i s"
  proof
    assume "fst m = s_i s"
    with lt split have "smart_loop pat t s = None"
      by (intro smart_loop_empty_match [where m = m]) auto
    with ret show False by simp
  qed
  with b split(7) show ?thesis by (simp add: slice_length)
qed

lemma smart_loop_invariant:
  assumes ret: "smart_loop pat t s = Some y" and init: "I s"
    and step: "\<And>s. I s \<Longrightarrow> s_i s < length t \<Longrightarrow> s_i s < s_i (smart_step pat t s) \<Longrightarrow>
                 I (smart_step pat t s)"
  shows "I y \<and> \<not> s_i y < length t"
  using ret init
proof (induction "length t - s_i s" arbitrary: s rule: less_induct)
  case less
  show ?case
  proof (cases "s_i s < length t")
    case True
    from True less.prems(1) have adv: "s_i s < s_i (smart_step pat t s)"
      by (rule smart_step_advances)
    from True less.prems(1) have r: "smart_loop pat t (smart_step pat t s) = Some y"
      by (simp add: smart_loop_step)
    have "I (smart_step pat t s)"
      using less.prems(2) True adv by (rule step)
    with less.hyps [of "smart_step pat t s"] True adv r show ?thesis by simp
  next
    case False
    with less.prems show ?thesis by (simp add: smart_loop_stop)
  qed
qed

subsection \<open>Content and non-empty components\<close>

lemma plain_text_append [simp]: "plain_text (a @ b) = plain_text a @ plain_text b"
  by (simp add: plain_text_def)

lemma non_text_append [simp]: "non_text (a @ b) = non_text a @ non_text b"
  by (simp add: non_text_def)

lemma plain_text_simps [simp]:
  "plain_text [] = []" "plain_text (Plain t # c) = t @ plain_text c"
  "plain_text (Other x # c) = plain_text c"
  by (simp_all add: plain_text_def)

lemma non_text_simps [simp]:
  "non_text [] = []" "non_text (Plain t # c) = non_text c"
  "non_text (Other x # c) = Other x # non_text c"
  by (simp_all add: non_text_def)

text \<open>The text still to come is the text not yet emitted.\<close>

lemma smart_step_content:
  assumes lt: "s_i s < length t"
  shows "plain_text (concat (s_segments (smart_step pat t s)) @ s_buffer (smart_step pat t s)) @
           s_chunk (smart_step pat t s) @ drop (s_i (smart_step pat t s)) t =
         plain_text (concat (s_segments s) @ s_buffer s) @ s_chunk s @ drop (s_i s) t \<and>
         non_text (concat (s_segments (smart_step pat t s)) @ s_buffer (smart_step pat t s)) =
         non_text (concat (s_segments s) @ s_buffer s)"
  using lt
proof (cases rule: smart_step_cases [where pat = pat])
  case consume
  with lt show ?thesis by (simp add: Cons_nth_drop_Suc)
next
  case (split m)
  from split(3) have b: "s_i s \<le> fst m" "fst m \<le> length t"
    by (auto simp: re_match_at_def dest: run_at_bounds)
  then have "slice t (s_i s) (fst m) @ drop (s_i s + length (slice t (s_i s) (fst m))) t =
      drop (s_i s) t"
    using slice_drop [of "s_i s" "fst m" t] by (simp add: slice_length)
  with split show ?thesis by simp
qed

lemma smart_loop_content:
  assumes "smart_loop pat t s = Some y"
  shows "plain_text (concat (s_segments y) @ s_buffer y) @ s_chunk y @ drop (s_i y) t =
           plain_text (concat (s_segments s) @ s_buffer s) @ s_chunk s @ drop (s_i s) t \<and>
         non_text (concat (s_segments y) @ s_buffer y) = non_text (concat (s_segments s) @ s_buffer s) \<and>
         \<not> s_i y < length t"
proof -
  let ?I = "\<lambda>u. plain_text (concat (s_segments u) @ s_buffer u) @ s_chunk u @ drop (s_i u) t =
           plain_text (concat (s_segments s) @ s_buffer s) @ s_chunk s @ drop (s_i s) t \<and>
         non_text (concat (s_segments u) @ s_buffer u) = non_text (concat (s_segments s) @ s_buffer s)"
  have "?I y \<and> \<not> s_i y < length t"
  proof (rule smart_loop_invariant [OF assms, where I = ?I])
    show "?I s" by simp
    show "?I (smart_step pat t u)" if "?I u" "s_i u < length t" for u
      using that smart_step_content [of u t pat] by simp
  qed
  then show ?thesis by blast
qed

lemma process_text_smart_content:
  assumes "process_text_smart txt pat segments buffer = Some (segments', buffer')"
  shows "plain_text (concat segments' @ buffer') = plain_text (concat segments @ buffer) @ txt \<and>
         non_text (concat segments' @ buffer') = non_text (concat segments @ buffer)"
proof -
  let ?s0 = "\<lparr>s_i = 0, s_stack = [], s_chunk = [], s_segments = segments, s_buffer = buffer\<rparr>"
  from assms obtain y where y: "smart_loop pat txt ?s0 = Some y"
    and r: "segments' = s_segments y"
      "buffer' = (if s_chunk y \<noteq> [] then s_buffer y @ [Plain (s_chunk y)] else s_buffer y)"
    by (auto simp: process_text_smart_def split: option.splits)
  from smart_loop_content [OF y] r show ?thesis by auto
qed

lemma smart_loop_filled:
  assumes ret: "smart_loop pat t s = Some y"
    and init: "list_all (list_all filled) (s_segments s) \<and> list_all filled (s_buffer s)"
  shows "list_all (list_all filled) (s_segments y) \<and> list_all filled (s_buffer y)"
proof -
  let ?I = "\<lambda>u. list_all (list_all filled) (s_segments u) \<and> list_all filled (s_buffer u)"
  have "?I y \<and> \<not> s_i y < length t"
  proof (rule smart_loop_invariant [OF ret, where I = ?I])
    show "?I s" by (rule init)
    show "?I (smart_step pat t u)"
      if i: "?I u" and lt: "s_i u < length t" and adv: "s_i u < s_i (smart_step pat t u)" for u
      using lt
    proof (cases rule: smart_step_cases [where pat = pat])
      case consume
      with i show ?thesis by simp
    next
      case (split m)
      from adv split(7) have "slice t (s_i u) (fst m) \<noteq> []" by auto
      with i split show ?thesis by simp
    qed
  qed
  then show ?thesis by blast
qed

lemma process_text_smart_filled:
  assumes "process_text_smart txt pat segments buffer = Some (segments', buffer')"
    and "list_all (list_all filled) segments" and "list_all filled buffer"
  shows "list_all (list_all filled) segments' \<and> list_all filled buffer'"
proof -
  let ?s0 = "\<lparr>s_i = 0, s_stack = [], s_chunk = [], s_segments = segments, s_buffer = buffer\<rparr>"
  from assms(1) obtain y where y: "smart_loop pat txt ?s0 = Some y"
    and r: "segments' = s_segments y"
      "buffer' = (if s_chunk y \<noteq> [] then s_buffer y @ [Plain (s_chunk y)] else s_buffer y)"
    by (auto simp: process_text_smart_def split: option.splits)
  from smart_loop_filled [OF y] assms(2,3) r show ?thesis by auto
qed

lemma smart_loop_returns:
  assumes pos: "\<And>i m. i < length t \<Longrightarrow> re_match_at pat t i = Some m \<Longrightarrow> fst m \<noteq> i"
  shows "\<exists>y. smart_loop pat t s = Some y"
proof (induction "length t - s_i s" arbitrary: s rule: less_induct)
  case less
  show ?case
  proof (cases "s_i s < length t")
    case False
    then show ?thesis by (simp add: smart_loop_stop)
  next
    case True
    have "s_i s < s_i (smart_step pat t s)"
      using True
    proof (cases rule: smart_step_cases [where pat = pat])
      case consume
      then show ?thesis by simp
    next
      case (split m)
      from split(3) have "s_i s \<le> fst m" "fst m \<le> length t"
        by (auto simp: re_match_at_def dest: run_at_bounds)
      with pos [OF True split(3)] split(7) show ?thesis by (simp add: slice_length)
    qed
    with True less [of "smart_step pat t s"] show ?thesis
      by (simp add: smart_loop_step)
  qed
qed

subsection \<open>Simple mode\<close>

lemma run_at_group:
  assumes "run_at (pat_group p) t pos adv = Some c" and "list_all (\<lambda>c. snd c = []) (p t pos)"
  shows "snd c = [Some (slice t pos (fst c))]"
proof -
  from assms(1) obtain k where k: "k < length (pat_group p t pos)" "c = pat_group p t pos ! k"
    unfolding run_at_def find_Some_iff by blast
  then have "k < length (p t pos)" by (simp add: pat_group_def)
  with assms(2) have "snd (p t pos ! k) = []" by (simp add: list_all_length)
  with k \<open>k < length (p t pos)\<close> show ?thesis by (simp add: pat_group_def)
qed

lemma split_pieces_group:
  assumes ng: "\<And>t i. list_all (\<lambda>c. snd c = []) (p t i)"
  shows "prev \<le> pos \<Longrightarrow> pos \<le> length t \<Longrightarrow>
     concat (map part_text (split_pieces t prev (re_scan (pat_group p) t pos adv))) = drop prev t"
proof (induction "pat_group p" t pos adv arbitrary: prev rule: re_scan.induct)
  case (1 t pos adv)
  show ?case
  proof (cases "run_at (pat_group p) t pos adv")
    case None
    with "1.hyps"(1) "1.prems" show ?thesis by (simp add: re_scan_None)
  next
    case (Some c)
    then have b: "pos \<le> fst c" "fst c \<le> length t" by (auto dest: run_at_bounds)
    have g: "snd c = [Some (slice t pos (fst c))]" by (rule run_at_group [OF Some ng])
    have ih: "concat (map part_text (split_pieces t (fst c)
                (re_scan (pat_group p) t (fst c) (fst c = pos)))) = drop (fst c) t"
      using "1.hyps"(2) [OF Some _ b(2)] by simp
    have "slice t prev pos @ slice t pos (fst c) @ drop (fst c) t = drop prev t"
      using b "1.prems" by (simp add: slice_drop)
    with Some g ih show ?thesis by (simp add: re_scan_Some)
  qed
qed

lemma simple_part_content:
  "simple_part pat (segments, buffer, temp_text) part = (segments', buffer', temp_text') \<Longrightarrow>
     plain_text (concat segments' @ buffer') @ temp_text' =
       plain_text (concat segments @ buffer) @ temp_text @ part_text part \<and>
     non_text (concat segments' @ buffer') = non_text (concat segments @ buffer)"
  by (cases part) (auto split: if_splits)

lemma simple_part_filled:
  "simple_part pat (segments, buffer, temp_text) part = (segments', buffer', temp_text') \<Longrightarrow>
     list_all (list_all filled) segments \<Longrightarrow> list_all filled buffer \<Longrightarrow>
     list_all (list_all filled) segments' \<and> list_all filled buffer'"
  by (cases part) (auto split: if_splits)

lemma simple_fold:
  "foldl (simple_part pat) (segments, buffer, temp_text) parts = (segments', buffer', temp_text') \<Longrightarrow>
     (plain_text (concat segments' @ buffer') @ temp_text' =
        plain_text (concat segments @ buffer) @ temp_text @ concat (map part_text parts) \<and>
      non_text (concat segments' @ buffer') = non_text (concat segments @ buffer)) \<and>
     (list_all (list_all filled) segments \<and> list_all filled buffer \<longrightarrow>
      list_all (list_all filled) segments' \<and> list_all filled buffer')"
proof (induction parts arbitrary: segments buffer temp_text)
  case Nil
  then show ?case by simp
next
  case (Cons part parts)
  obtain s1 b1 t1 where st: "simple_part pat (segments, buffer, temp_text) part = (s1, b1, t1)"
    by (cases "simple_part pat (segments, buffer, temp_text) part") auto
  with Cons.prems have "foldl (simple_part pat) (s1, b1, t1) parts = (segments', buffer', temp_text')"
    by simp
  from Cons.IH [OF this] simple_part_content [OF st] simple_part_filled [OF st]
  show ?case by auto
qed

lemma process_text_simple_content:
  assumes "process_text_simple txt pat segments buffer = (segments', buffer')"
    and ng: "\<And>t i. list_all (\<lambda>c. snd c = []) (pat t i)"
  shows "plain_text (concat segments' @ buffer') = plain_text (concat segments @ buffer) @ txt \<and>
         non_text (concat segments' @ buffer') = non_text (concat segments @ buffer)"
proof -
  obtain s1 b1 t1 where f: "foldl (simple_part pat) (segments, buffer, [])
      (re_split (pat_group pat) txt) = (s1, b1, t1)"
    by (cases "foldl (simple_part pat) (segments, buffer, []) (re_split (pat_group pat) txt)") auto
  have "concat (map part_text (re_split (pat_group pat) txt)) = txt"
    using split_pieces_group [where p = pat and t = "txt" and prev = 0 and pos = 0 and adv = False] ng by (simp add: re_split_def)
  with simple_fold [OF f] assms(1) f show ?thesis
    by (auto simp: process_text_simple_def split: if_splits)
qed

lemma process_text_simple_filled:
  assumes "process_text_simple txt pat segments buffer = (segments', buffer')"
    and "list_all (list_all filled) segments" and "list_all filled buffer"
  shows "list_all (list_all filled) segments' \<and> list_all filled buffer'"
proof -
  obtain s1 b1 t1 where f: "foldl (simple_part pat) (segments, buffer, [])
      (re_split (pat_group pat) txt) = (s1, b1, t1)"
    by (cases "foldl (simple_part pat) (segments, buffer, []) (re_split (pat_group pat) txt)") auto
  with simple_fold [OF f] assms show ?thesis
    by (auto simp: process_text_simple_def split: if_splits)
qed

subsection \<open>The whole segmenter\<close>

lemma chain_loop_content:
  assumes ok: "smart_mode \<or> (\<forall>t i. list_all (\<lambda>c. snd c = []) (pat t i))"
  shows "chain_loop pat smart_mode c (segments, buffer) = Some (segments', buffer') \<Longrightarrow>
     plain_text (concat segments' @ buffer') = plain_text (concat segments @ buffer) @ plain_text c \<and>
     non_text (concat segments' @ buffer') = non_text (concat segments @ buffer) @ non_text c"
proof (induction c arbitrary: segments buffer)
  case Nil
  then show ?case by simp
next
  case (Cons x c)
  show ?case
  proof (cases x)
    case (Other n)
    with Cons.prems have "chain_loop pat smart_mode c (segments, buffer @ [Other n]) =
        Some (segments', buffer')" by simp
    from Cons.IH [OF this] Other show ?thesis by simp
  next
    case (Plain tx)
    show ?thesis
    proof (cases "tx = []")
      case True
      with Cons.prems Plain have "chain_loop pat smart_mode c (segments, buffer) =
          Some (segments', buffer')" by simp
      from Cons.IH [OF this] Plain True show ?thesis by simp
    next
      case False
      show ?thesis
      proof (cases smart_mode)
        case True
        with Cons.prems Plain False obtain s1 b1 where
          p: "process_text_smart tx pat segments buffer = Some (s1, b1)" and
          r: "chain_loop pat smart_mode c (s1, b1) = Some (segments', buffer')"
          by (auto split: option.splits)
        from Cons.IH [OF r] process_text_smart_content [OF p] Plain show ?thesis by simp
      next
        case sm: False
        obtain s1 b1 where p: "process_text_simple tx pat segments buffer = (s1, b1)"
          by (cases "process_text_simple tx pat segments buffer") auto
        with Cons.prems Plain False sm have
          r: "chain_loop pat smart_mode c (s1, b1) = Some (segments', buffer')"
          by simp
        from sm ok have "\<And>t i. list_all (\<lambda>c. snd c = []) (pat t i)" by simp
        from Cons.IH [OF r] process_text_simple_content [OF p this] Plain show ?thesis by simp
      qed
    qed
  qed
qed

lemma chain_loop_filled:
  "chain_loop pat smart_mode c (segments, buffer) = Some (segments', buffer') \<Longrightarrow>
     list_all (list_all filled) segments \<Longrightarrow> list_all filled buffer \<Longrightarrow>
     list_all (list_all filled) segments' \<and> list_all filled buffer'"
proof (induction c arbitrary: segments buffer)
  case Nil
  then show ?case by simp
next
  case (Cons x c)
  show ?case
  proof (cases x)
    case (Other n)
    with Cons.prems have "chain_loop pat smart_mode c (segments, buffer @ [Other n]) =
        Some (segments', buffer')" by simp
    from Cons.IH [OF this] Cons.prems(2,3) show ?thesis by simp
  next
    case (Plain tx)
    show ?thesis
    proof (cases "tx = []")
      case True
      with Cons.prems Plain have "chain_loop pat smart_mode c (segments, buffer) =
          Some (segments', buffer')" by simp
      from Cons.IH [OF this] Cons.prems(2,3) show ?thesis by simp
    next
      case False
      show ?thesis
      proof (cases smart_mode)
        case True
        with Cons.prems Plain False obtain s1 b1 where
          p: "process_text_smart tx pat segments buffer = Some (s1, b1)" and
          r: "chain_loop pat smart_mode c (s1, b1) = Some (segments', buffer')"
          by (auto split: option.splits)
        from process_text_smart_filled [OF p Cons.prems(2,3)] Cons.IH [OF r]
        show ?thesis by simp
      next
        case sm: False
        obtain s1 b1 where p: "process_text_simple tx pat segments buffer = (s1, b1)"
          by (cases "process_text_simple tx pat segments buffer") auto
        with Cons.prems Plain False sm have
          r: "chain_loop pat smart_mode c (s1, b1) = Some (segments', buffer')"
          by simp
        from process_text_simple_filled [OF p Cons.prems(2,3)] Cons.IH [OF r]
        show ?thesis by simp
      qed
    qed
  qed
qed

lemma concat_filter_nonempty: "concat (filter (\<lambda>seg. seg \<noteq> []) xs) = concat xs"
  by (induction xs) auto

text \<open>
  Whenever the segmenter returns, the text and the non-text components of its segments
  are those of the chain: in smart mode for every pattern, in simple mode for every
  pattern that has no group of its own.
\<close>

lemma split_chain_keeps_content:
  assumes "split_chain_smart c pat smart_mode = Some segments"
    and "smart_mode \<or> (\<forall>t i. list_all (\<lambda>c. snd c = []) (pat t i))"
  shows "plain_text (concat segments) = plain_text c \<and> non_text (concat segments) = non_text c"
proof -
  from assms(1) obtain s1 b1 where l: "chain_loop pat smart_mode c ([], []) = Some (s1, b1)"
    and r: "segments = filter (\<lambda>seg. seg \<noteq> []) (if b1 \<noteq> [] then s1 @ [b1] else s1)"
    by (auto simp: split_chain_smart_def split: option.splits)
  from r have "concat segments = concat s1 @ b1"
    by (simp add: concat_filter_nonempty)
  with chain_loop_content [OF assms(2) l] show ?thesis by simp
qed

text \<open>No segment is empty and no \<open>Plain\<close> component in a segment has empty text.\<close>

lemma split_chain_filled:
  assumes "split_chain_smart c pat smart_mode = Some segments"
  shows "list_all (list_all filled) segments \<and> list_all (\<lambda>seg. seg \<noteq> []) segments"
proof -
  from assms(1) obtain s1 b1 where l: "chain_loop pat smart_mode c ([], []) = Some (s1, b1)"
    and r: "segments = filter (\<lambda>seg. seg \<noteq> []) (if b1 \<noteq> [] then s1 @ [b1] else s1)"
    by (auto simp: split_chain_smart_def split: option.splits)
  from chain_loop_filled [OF l] have "list_all (list_all filled) s1 \<and> list_all filled b1" by simp
  with r show ?thesis by (auto simp: list_all_iff)
qed

text \<open>
  The segmenter returns in simple mode, and in smart mode when the pattern never
  matches the empty string.
\<close>

lemma split_chain_returns:
  assumes "\<not> smart_mode \<or> (\<forall>t i m. i < length t \<longrightarrow> re_match_at pat t i = Some m \<longrightarrow> fst m \<noteq> i)"
  shows "\<exists>segments. split_chain_smart c pat smart_mode = Some segments"
proof -
  have "\<exists>st. chain_loop pat smart_mode c (segments, buffer) = Some st" for segments buffer
  proof (induction c arbitrary: segments buffer)
    case Nil
    show ?case by simp
  next
    case (Cons x c)
    show ?case
    proof (cases x)
      case (Other n)
      with Cons show ?thesis by simp
    next
      case (Plain tx)
      show ?thesis
      proof (cases "smart_mode \<and> tx \<noteq> []")
        case False
        with Plain Cons show ?thesis
          by (cases "process_text_simple tx pat segments buffer") auto
      next
        case True
        with assms have pos: "\<And>i m. i < length tx \<Longrightarrow> re_match_at pat tx i = Some m \<Longrightarrow> fst m \<noteq> i"
          by blast
        have "\<exists>y. smart_loop pat tx
            \<lparr>s_i = 0, s_stack = [], s_chunk = [], s_segments = segments, s_buffer = buffer\<rparr> = Some y"
          by (rule smart_loop_returns) (rule pos)
        then obtain st where "process_text_smart tx pat segments buffer = Some st"
          by (auto simp: process_text_smart_def)
        with True Plain Cons [of "fst st" "snd st"] show ?thesis by simp
      qed
    qed
  qed
  from this [of "[]" "[]"] show ?thesis
    by (auto simp: split_chain_smart_def)
qed

subsection \<open>Capping and the chains sent\<close>

lemma cap_segments_filled:
  assumes "list_all (list_all filled) segments"
  shows "list_all (list_all filled) (cap_segments segments max_segs)"
proof -
  have "list_all filled (concat (drop n segments))" for n
    using assms by (auto simp: list_all_iff dest: in_set_dropD)
  moreover have "list_all (list_all filled) (take n segments)" for n
    using assms by (auto simp: list_all_iff dest: in_set_takeD)
  ultimately show ?thesis using assms by (simp add: cap_segments_def)
qed

lemma body_send_cleaned:
  "Send j c \<in> set (dispatch_body clean_pattern ok n i seg) \<Longrightarrow>
     c = (case clean_pattern of None \<Rightarrow> seg | Some cp \<Rightarrow> map (clean_component cp) seg)"
  by (auto simp: dispatch_body_def Let_def split: if_splits)

subsection \<open>A pattern that no token matches in full\<close>

lemma simple_fold_no_flush:
  assumes nf: "\<And>part. part \<noteq> [] \<Longrightarrow> \<not> re_fullmatch pat part"
  shows "fst (foldl (simple_part pat) (segments, buffer, temp_text) parts) = segments"
proof (induction parts arbitrary: buffer temp_text)
  case Nil
  show ?case by simp
next
  case (Cons part parts)
  show ?case
  proof (cases part)
    case None
    with Cons show ?thesis by simp
  next
    case (Some x)
    with Cons nf [of x] show ?thesis by simp
  qed
qed

lemma chain_loop_simple_no_flush:
  assumes nf: "\<And>part. part \<noteq> [] \<Longrightarrow> \<not> re_fullmatch pat part"
  shows "chain_loop pat False c (segments, buffer) = Some (segments', buffer') \<Longrightarrow>
     segments' = segments"
proof (induction c arbitrary: buffer)
  case Nil
  then show ?case by simp
next
  case (Cons x c)
  show ?case
  proof (cases x)
    case (Other n)
    with Cons show ?thesis by simp
  next
    case (Plain tx)
    have "fst (process_text_simple tx pat segments buffer) = segments"
      using simple_fold_no_flush [OF nf, of segments buffer "[]" "re_split (pat_group pat) tx"]
      by (auto simp: process_text_simple_def split: prod.splits)
    then obtain b1 where "process_text_simple tx pat segments buffer = (segments, b1)"
      by (cases "process_text_simple tx pat segments buffer") auto
    with Plain Cons show ?thesis by (auto split: if_splits)
  qed
qed

lemma simple_mode_empty_pattern:
  "\<exists>segments. split_chain_smart c pat_empty False = Some segments \<and> length segments \<le> 1 \<and>
     plain_text (concat segments) = plain_text c \<and> non_text (concat segments) = non_text c"
proof -
  obtain segments where s: "split_chain_smart c pat_empty False = Some segments"
    using split_chain_returns [of False pat_empty c] by auto
  have ng: "False \<or> (\<forall>t i. list_all (\<lambda>c. snd c = []) (pat_empty t i))"
    by (simp add: pat_empty_def)
  have nf: "\<not> re_fullmatch pat_empty part" if "part \<noteq> []" for part
    using that by (simp add: re_fullmatch_def pat_empty_def)
  from s obtain s1 b1 where l: "chain_loop pat_empty False c ([], []) = Some (s1, b1)"
    and r: "segments = filter (\<lambda>seg. seg \<noteq> []) (if b1 \<noteq> [] then s1 @ [b1] else s1)"
    by (auto simp: split_chain_smart_def split: option.splits)
  from chain_loop_simple_no_flush [OF nf l] have "s1 = []" by simp
  with r have "length segments \<le> 1" by simp
  with s split_chain_keeps_content [OF s ng] show ?thesis by simp
qed

subsection \<open>Inside a bracketed span\<close>










subsection \<open>The trace of the dispatch loop\<close>

lemma dispatch_set:
  "set (dispatch clean_pattern ok segments) =
     (\<Union>i<length segments. set (dispatch_body clean_pattern ok (length segments) i (segments ! i)))"
  by (fastforce simp: dispatch_def in_set_enumerate_eq)

lemma body_send_index:
  "Send j c \<in> set (dispatch_body clean_pattern ok n i seg) \<Longrightarrow> j = i"
  by (auto simp: dispatch_body_def Let_def split: if_splits)

lemma body_sleep_index:
  "Sleep j t \<in> set (dispatch_body clean_pattern ok n i seg) \<Longrightarrow> j = i"
  by (auto simp: dispatch_body_def Let_def split: if_splits)

lemma body_sleep_iff:
  "Send i c \<in> set (dispatch_body clean_pattern ok n i seg) \<Longrightarrow> ok i \<Longrightarrow>
     (\<exists>t. Sleep i t \<in> set (dispatch_body clean_pattern ok n i seg)) \<longleftrightarrow> int i < int n - 1"
  by (auto simp: dispatch_body_def Let_def split: if_splits)

lemma body_send_not_blank:
  "Send j c \<in> set (dispatch_body clean_pattern ok n i seg) \<Longrightarrow>
     c \<noteq> [] \<and> \<not> (list_all is_plain c \<and> plain_text c = [])"
  by (auto simp: dispatch_body_def Let_def split: if_splits option.splits)

lemmas handler_eval = on_decorating_result_def dispatch_def dispatch_body_def cap_segments_def
  config_get_def default_config_def always_ok_def plain_text_def enumerate_eq_zip Let_def

lemma handler_send_in_dispatch:
  assumes "on_decorating_result cfg ok ev = Some (ev', tr)" and "Send i c \<in> set tr"
  shows "\<exists>segments0 c0.
           result_chain ev = Some c0 \<and>
           split_chain_smart c0 (config_get (split_regex cfg) default_split_pattern)
             (config_get (enable_smart_split cfg) True) = Some segments0 \<and>
           tr = dispatch (clean_regex cfg) ok
                  (cap_segments segments0 (config_get (max_segments cfg) 7))"
  using assms
  by (auto simp: on_decorating_result_def Let_def split: option.splits if_splits)

section \<open>Results\<close>

text \<open>
  Claim C1. The claim is that the segmenter keeps the text of the chain for every pattern
  and in both modes. Simple mode splits with the pattern wrapped in a capturing group
  and walks over every element of the result; when the pattern has a group of its own,
  \<open>split\<close> returns the delimiter once per group and simple mode emits it again. For
  the pattern that is a group around one or more ideographic full stops and the text
  \<open>a\<close>, full stop, \<open>b\<close>, the segments carry the full stop twice.
\<close>

theorem simple_mode_repeats_group_text:
  "split_chain_smart [Plain [0x61, 0x3002, 0x62]] (pat_group (pat_class_plus [0x3002])) False =
     Some [[Plain [0x61, 0x3002]], [Plain [0x3002]], [Plain [0x62]]] \<and>
   plain_text (concat [[Plain [0x61, 0x3002]], [Plain [0x3002]], [Plain [0x62]]]) \<noteq>
     plain_text [Plain [0x61, 0x3002, 0x62]]"
  by (simp add: simple_eval regex_eval plain_text_def)




text \<open>
  Claim C3. If \<open>M \<le> 0\<close> or there are at most \<open>M\<close> segments, capping returns the list
  unchanged. Otherwise it returns exactly \<open>M\<close> segments: the first \<open>M - 1\<close> are the first
  \<open>M - 1\<close> of the input and the last is the in-order concatenation of the components of
  segments \<open>M\<close> through the end. In particular ten segments capped at 3 give three
  segments, the third being the concatenation of the original segments 3 to 10.
\<close>

theorem cap_segments_spec:
  "(M \<le> 0 \<or> int (length S) \<le> M \<longrightarrow> cap_segments S M = S) \<and>
   (0 < M \<and> M < int (length S) \<longrightarrow>
      length (cap_segments S M) = nat M \<and>
      take (nat M - 1) (cap_segments S M) = take (nat M - 1) S \<and>
      last (cap_segments S M) = concat (drop (nat M - 1) S)) \<and>
   (length S = 10 \<longrightarrow>
      length (cap_segments S 3) = 3 \<and>
      take 2 (cap_segments S 3) = take 2 S \<and>
      cap_segments S 3 ! 2 = concat (drop 2 S))"
proof (intro conjI impI)
  assume "M \<le> 0 \<or> int (length S) \<le> M"
  then show "cap_segments S M = S"
    by (auto simp: cap_segments_def)
next
  assume h: "0 < M \<and> M < int (length S)"
  then have k: "nat (M - 1) = nat M - 1" "nat M - 1 < length S" "Suc (nat M - 1) = nat M"
    by auto
  from h have e: "cap_segments S M = take (nat M - 1) S @ [concat (drop (nat M - 1) S)]"
    by (simp add: cap_segments_def k(1))
  show "length (cap_segments S M) = nat M"
    using k by (simp add: e min_def)
  show "take (nat M - 1) (cap_segments S M) = take (nat M - 1) S"
    using k by (simp add: e)
  show "last (cap_segments S M) = concat (drop (nat M - 1) S)"
    by (simp add: e)
next
  assume l: "length S = 10"
  then have e: "cap_segments S 3 = take 2 S @ [concat (drop 2 S)]"
    by (simp add: cap_segments_def)
  show "length (cap_segments S 3) = 3"
    using l by (simp add: e)
  show "take 2 (cap_segments S 3) = take 2 S"
    using l by (simp add: e)
  show "cap_segments S 3 ! 2 = concat (drop 2 S)"
    using l by (simp add: e nth_append)
qed

theorem cap_segments_spec_witness:
  "cap_segments [[Plain [1]], [Other 7], [Plain [2]], [Plain [3]]] 2
     = [[Plain [1]], [Other 7, Plain [2], Plain [3]]] \<and>
   cap_segments [[Plain [1]], [Plain [2]]] 0 = [[Plain [1]], [Plain [2]]] \<and>
   length (cap_segments (map (\<lambda>k. [Plain [k]]) [0..<10]) 3) = 3 \<and>
   cap_segments (map (\<lambda>k. [Plain [k]]) [0..<10]) 3 ! 2 = map (\<lambda>k. Plain [k]) [2..<10]"
proof -
  let ?S = "[[Plain [1]], [Other 7], [Plain [2]], [Plain [3::nat]]]"
  let ?T = "map (\<lambda>k. [Plain [k]]) [0..<10]"
  have a: "0 < (2::int) \<and> 2 < int (length ?S)" by simp
  have b: "(0::int) \<le> 0 \<or> int (length [[Plain [1]], [Plain [2::nat]]]) \<le> 0" by simp
  have c: "length ?T = 10" by simp
  have d: "concat (drop 2 ?T) = map (\<lambda>k. Plain [k]) [2..<10]"
    by (simp add: upt_conv_Cons)
  from cap_segments_spec [of 2 ?S] a
  have "take (nat 2 - 1) (cap_segments ?S 2) = take (nat 2 - 1) ?S"
    and "last (cap_segments ?S 2) = concat (drop (nat 2 - 1) ?S)"
    and "length (cap_segments ?S 2) = nat 2"
    by blast+
  then have 1: "cap_segments ?S 2 = [[Plain [1]], [Other 7, Plain [2], Plain [3]]]"
    by (simp add: cap_segments_def)
  from cap_segments_spec [of 0 "[[Plain [1]], [Plain [2::nat]]]"] b
  have 2: "cap_segments [[Plain [1]], [Plain [2]]] 0 = [[Plain [1]], [Plain [2]]]"
    by blast
  from cap_segments_spec [of _ ?T] c
  have 3: "length (cap_segments ?T 3) = 3" and 4: "cap_segments ?T 3 ! 2 = concat (drop 2 ?T)"
    by blast+
  show ?thesis using 1 2 3 4 d by simp
qed

text \<open>
  Claim C4. The claim is that without a configured \<open>split_regex\<close> the newline is a
  delimiter. The default in the code is a raw string with a doubled backslash, whose class
  holds the backslash and the letter \<open>n\<close> and not the newline: with the default
  configuration \<open>a\<close>, newline, \<open>b\<close> is not split in either mode, and \<open>anb\<close>
  is split after the \<open>n\<close>.
\<close>

theorem default_pattern_misses_newline:
  "config_get (split_regex default_config) default_split_pattern = default_split_pattern \<and>
   split_chain_smart [Plain [0x61, 0x0A, 0x62]] default_split_pattern True =
     Some [[Plain [0x61, 0x0A, 0x62]]] \<and>
   split_chain_smart [Plain [0x61, 0x0A, 0x62]] default_split_pattern False =
     Some [[Plain [0x61, 0x0A, 0x62]]] \<and>
   split_chain_smart [Plain [0x61, 0x6E, 0x62]] default_split_pattern True =
     Some [[Plain [0x61, 0x6E]], [Plain [0x62]]]"
proof (intro conjI)
  show "config_get (split_regex default_config) default_split_pattern = default_split_pattern"
    by (simp add: config_get_def default_config_def)
  show "split_chain_smart [Plain [0x61, 0x0A, 0x62]] default_split_pattern True =
     Some [[Plain [0x61, 0x0A, 0x62]]]"
    by (simp add: smart_eval regex_eval)
  show "split_chain_smart [Plain [0x61, 0x0A, 0x62]] default_split_pattern False =
     Some [[Plain [0x61, 0x0A, 0x62]]]"
    by (simp add: simple_eval regex_eval)
  show "split_chain_smart [Plain [0x61, 0x6E, 0x62]] default_split_pattern True =
     Some [[Plain [0x61, 0x6E]], [Plain [0x62]]]"
    by (simp add: smart_eval regex_eval)
qed

text \<open>
  Claim C5. The claim is that with the empty pattern segmentation returns in both modes
  without splitting. The empty pattern matches the empty string at every offset; the
  smart loop then adds a delimiter of length 0 and never advances, so it does not return
  already on the one-letter text \<open>a\<close>. Simple mode does what the claim says: for
  every chain it returns at most one segment, with the text and the other components of
  the chain.
\<close>

theorem smart_mode_empty_pattern_never_returns:
  "split_chain_smart [Plain [0x61]] pat_empty True = None \<and>
   (\<exists>segments. split_chain_smart c pat_empty False = Some segments \<and> length segments \<le> 1 \<and>
      plain_text (concat segments) = plain_text c \<and> non_text (concat segments) = non_text c)"
proof
  have "smart_loop pat_empty [0x61]
          \<lparr>s_i = 0, s_stack = [], s_chunk = [], s_segments = [], s_buffer = []\<rparr> = None"
    by (rule smart_loop_empty_match [where m = "(0, [])"]) (simp_all add: pair_map_def regex_eval)
  then show "split_chain_smart [Plain [0x61]] pat_empty True = None"
    by (simp add: split_chain_smart_def process_text_smart_def)
  show "\<exists>segments. split_chain_smart c pat_empty False = Some segments \<and> length segments \<le> 1 \<and>
      plain_text (concat segments) = plain_text c \<and> non_text (concat segments) = non_text c"
    by (rule simple_mode_empty_pattern)
qed

text \<open>
  Claim C6. The claim is that simple mode appends every delimiter token to the text
  before it and flushes the two as one \<open>Plain\<close> component that closes the segment.
  Simple mode recognises a delimiter token by matching the pattern against the token
  alone, where a look-ahead no longer sees what followed. For the pattern of a full stop
  that a space follows and the text \<open>Hi. Yo\<close>, \<open>split\<close> returns the full stop as
  the delimiter token, the token alone is not matched, and simple mode keeps one segment
  of three components; smart mode splits after the full stop. The greeting example of
  the claim, with the default pattern, is split as stated.
\<close>

theorem simple_mode_misses_lookahead_delimiter:
  "re_split (pat_group (pat_lookahead 0x2E 0x20)) [0x48, 0x69, 0x2E, 0x20, 0x59, 0x6F] =
     [Some [0x48, 0x69], Some [0x2E], Some [0x20, 0x59, 0x6F]] \<and>
   \<not> re_fullmatch (pat_lookahead 0x2E 0x20) [0x2E] \<and>
   split_chain_smart [Plain [0x48, 0x69, 0x2E, 0x20, 0x59, 0x6F]] (pat_lookahead 0x2E 0x20) False =
     Some [[Plain [0x48, 0x69], Plain [0x2E], Plain [0x20, 0x59, 0x6F]]] \<and>
   split_chain_smart [Plain [0x48, 0x69, 0x2E, 0x20, 0x59, 0x6F]] (pat_lookahead 0x2E 0x20) True =
     Some [[Plain [0x48, 0x69, 0x2E]], [Plain [0x20, 0x59, 0x6F]]] \<and>
   split_chain_smart [Plain [0x4F60, 0x597D, 0x3002, 0x4E16, 0x754C, 0xFF01]]
     default_split_pattern False =
     Some [[Plain [0x4F60, 0x597D, 0x3002]], [Plain [0x4E16, 0x754C, 0xFF01]]]"
proof (intro conjI)
  show "re_split (pat_group (pat_lookahead 0x2E 0x20)) [0x48, 0x69, 0x2E, 0x20, 0x59, 0x6F] =
     [Some [0x48, 0x69], Some [0x2E], Some [0x20, 0x59, 0x6F]]"
    by (simp add: regex_eval pat_lookahead_def)
  show "\<not> re_fullmatch (pat_lookahead 0x2E 0x20) [0x2E]"
    by (simp add: regex_eval pat_lookahead_def)
  show "split_chain_smart [Plain [0x48, 0x69, 0x2E, 0x20, 0x59, 0x6F]] (pat_lookahead 0x2E 0x20) False =
     Some [[Plain [0x48, 0x69], Plain [0x2E], Plain [0x20, 0x59, 0x6F]]]"
    by (simp add: simple_eval regex_eval pat_lookahead_def)
  show "split_chain_smart [Plain [0x48, 0x69, 0x2E, 0x20, 0x59, 0x6F]] (pat_lookahead 0x2E 0x20) True =
     Some [[Plain [0x48, 0x69, 0x2E]], [Plain [0x20, 0x59, 0x6F]]]"
    by (simp add: smart_eval regex_eval pat_lookahead_def)
  show "split_chain_smart [Plain [0x4F60, 0x597D, 0x3002, 0x4E16, 0x754C, 0xFF01]]
     default_split_pattern False =
     Some [[Plain [0x4F60, 0x597D, 0x3002]], [Plain [0x4E16, 0x754C, 0xFF01]]]"
    by (simp add: simple_eval regex_eval)
qed

text \<open>
  Claim C8. With the \<open>log\<close> strategy the delay is
  \<open>base + factor * ln (length + 1)\<close> capped at 5, so it never exceeds 5; with base
  0.5 and factor 0.8 the empty text gives exactly 0.5. (Floats are read as reals.)
\<close>

theorem log_delay_spec:
  "(config_get (delay_strategy cfg) ''log'' = ''log'' \<longrightarrow>
      calculate_delay cfg u txt =
        min (config_get (log_base cfg) 0.5 +
             config_get (log_factor cfg) 0.8 * ln (real (length txt) + 1)) 5.0 \<and>
      calculate_delay cfg u txt \<le> 5.0) \<and>
   (config_get (delay_strategy cfg) ''log'' = ''log'' \<and>
    config_get (log_base cfg) 0.5 = 0.5 \<and> config_get (log_factor cfg) 0.8 = 0.8 \<longrightarrow>
      calculate_delay cfg u [] = 0.5)"
  by (simp add: calculate_delay_def Let_def)

theorem log_delay_spec_witness:
  "config_get (delay_strategy default_config) ''log'' = ''log'' \<and>
   calculate_delay default_config 0 [] = 0.5 \<and>
   calculate_delay default_config 0 [0x4F60, 0x597D] \<le> 5.0"
proof -
  have a: "config_get (delay_strategy default_config) ''log'' = ''log''"
    by (simp add: config_get_def default_config_def)
  have b: "config_get (log_base default_config) 0.5 = 0.5"
    "config_get (log_factor default_config) 0.8 = 0.8"
    by (simp_all add: config_get_def default_config_def)
  from log_delay_spec [of default_config 0 "[]"] a b
  have 1: "calculate_delay default_config 0 [] = 0.5" by blast
  from log_delay_spec [of default_config 0 "[0x4F60, 0x597D]"] a
  have 2: "calculate_delay default_config 0 [0x4F60, 0x597D] \<le> 5.0" by blast
  from a 1 2 show ?thesis by blast
qed

text \<open>
  Claim C7. The claim is that no chain handed to the sender holds a \<open>Plain\<close>
  component with empty text. The loop skips a segment only when it consists of
  \<open>Plain\<close> components alone and their joined text is empty; a component that the
  cleanup pattern empties stays in a segment that has other content. With a cleanup
  pattern that removes the letter \<open>a\<close>, the chain of an opaque component followed by
  the text \<open>a\<close> is sent with an empty \<open>Plain\<close> in it.
\<close>

theorem sent_chain_keeps_empty_plain:
  "on_decorating_result (default_config\<lparr>clean_regex := Some (pat_class_plus [0x61])\<rparr>) always_ok
     \<lparr>is_llm_reply = True, splitter_processed = False,
      result_chain = Some [Other 0, Plain [0x61]]\<rparr> =
     Some (\<lparr>is_llm_reply = True, splitter_processed = True, result_chain = Some []\<rparr>,
           [Send 0 [Other 0, Plain []]])"
  by (simp add: handler_eval smart_eval regex_eval)

text \<open>
  Claim C7, as the code has it: every chain handed to the sender is non-empty and is not
  made of \<open>Plain\<close> components only whose joined text is empty; and it is the
  cleanup, component by component, of a segment in which every \<open>Plain\<close> component
  has non-empty text (the segment itself when no cleanup pattern is configured).
\<close>

theorem sent_segments_not_blank:
  "on_decorating_result cfg ok ev = Some (ev', tr) \<and> Send i c \<in> set tr \<longrightarrow>
     c \<noteq> [] \<and> \<not> (list_all is_plain c \<and> plain_text c = []) \<and>
     (\<exists>seg. list_all filled seg \<and>
        c = (case clean_regex cfg of None \<Rightarrow> seg | Some cp \<Rightarrow> map (clean_component cp) seg))"
proof
  assume h: "on_decorating_result cfg ok ev = Some (ev', tr) \<and> Send i c \<in> set tr"
  then obtain segments0 c0 where
    sp: "split_chain_smart c0 (config_get (split_regex cfg) default_split_pattern)
             (config_get (enable_smart_split cfg) True) = Some segments0" and
    tr: "tr = dispatch (clean_regex cfg) ok
                  (cap_segments segments0 (config_get (max_segments cfg) 7))"
    using handler_send_in_dispatch [of cfg ok ev ev' tr i c] by blast
  let ?segs = "cap_segments segments0 (config_get (max_segments cfg) 7)"
  from split_chain_filled [OF sp] have f: "list_all (list_all filled) ?segs"
    by (intro cap_segments_filled) simp
  from h tr obtain k where k: "k < length ?segs"
    "Send i c \<in> set (dispatch_body (clean_regex cfg) ok (length ?segs) k (?segs ! k))"
    by (auto simp: dispatch_set)
  from f k(1) have "list_all filled (?segs ! k)" by (simp add: list_all_length)
  with body_send_cleaned [OF k(2)] body_send_not_blank [OF k(2)]
  show "c \<noteq> [] \<and> \<not> (list_all is_plain c \<and> plain_text c = []) \<and>
     (\<exists>seg. list_all filled seg \<and>
        c = (case clean_regex cfg of None \<Rightarrow> seg | Some cp \<Rightarrow> map (clean_component cp) seg))"
    by blast
qed

theorem sent_segments_not_blank_witness:
  "Send 0 [Other 0, Plain []] \<in> set [Send 0 [Other 0, Plain []]] \<and>
   \<not> (list_all is_plain [Other 0, Plain []] \<and> plain_text [Other 0, Plain []] = []) \<and>
   (\<exists>seg. list_all filled seg \<and> [Other 0, Plain []] = map (clean_component (pat_class_plus [0x61])) seg)"
proof -
  let ?cfg = "default_config\<lparr>clean_regex := Some (pat_class_plus [0x61])\<rparr>"
  let ?ev = "\<lparr>is_llm_reply = True, splitter_processed = False, result_chain = Some [Other 0, Plain [0x61]]\<rparr>"
  let ?ev' = "\<lparr>is_llm_reply = True, splitter_processed = True, result_chain = Some []\<rparr>"
  have "on_decorating_result ?cfg always_ok ?ev = Some (?ev', [Send 0 [Other 0, Plain []]])"
    by (simp add: handler_eval smart_eval regex_eval)
  then have a: "on_decorating_result ?cfg always_ok ?ev = Some (?ev', [Send 0 [Other 0, Plain []]]) \<and>
     Send 0 [Other 0, Plain []] \<in> set [Send 0 [Other 0, Plain []]]"
    by simp
  have b: "clean_regex ?cfg = Some (pat_class_plus [0x61])" by simp
  from sent_segments_not_blank [of ?cfg always_ok ?ev ?ev' "[Send 0 [Other 0, Plain []]]" 0 "[Other 0, Plain []]"] a
  have "\<not> (list_all is_plain [Other 0, Plain []] \<and> plain_text [Other 0, Plain []] = []) \<and>
     (\<exists>seg. list_all filled seg \<and>
        [Other 0, Plain []] = (case clean_regex ?cfg of None \<Rightarrow> seg | Some cp \<Rightarrow> map (clean_component cp) seg))"
    by blast
  with b show ?thesis by simp
qed

text \<open>
  Claim C9. For an event that is not flagged as a reply of the language model, or that
  is already marked processed, the handler returns the event as it is and sends nothing.
  For an event without a result or with an empty chain nothing is sent and the chain is
  as before. Whatever a first run returned, a second run on the event it left sends
  nothing and changes nothing, for any configuration and sender.
\<close>

theorem guards_make_noop:
  "(\<not> is_llm_reply ev \<or> splitter_processed ev \<longrightarrow>
      on_decorating_result cfg ok ev = Some (ev, [])) \<and>
   (result_chain ev = None \<or> result_chain ev = Some [] \<longrightarrow>
      (\<exists>ev'. on_decorating_result cfg ok ev = Some (ev', []) \<and>
             result_chain ev' = result_chain ev)) \<and>
   (on_decorating_result cfg ok ev = Some (ev1, tr1) \<longrightarrow>
      on_decorating_result cfg' ok' ev1 = Some (ev1, []))"
proof (intro conjI impI)
  assume "\<not> is_llm_reply ev \<or> splitter_processed ev"
  then show "on_decorating_result cfg ok ev = Some (ev, [])"
    by (auto simp: on_decorating_result_def)
next
  assume "result_chain ev = None \<or> result_chain ev = Some []"
  then show "\<exists>ev'. on_decorating_result cfg ok ev = Some (ev', []) \<and>
             result_chain ev' = result_chain ev"
    by (auto simp: on_decorating_result_def)
next
  assume h: "on_decorating_result cfg ok ev = Some (ev1, tr1)"
  have "\<not> is_llm_reply ev1 \<or> splitter_processed ev1"
  proof (cases "\<not> is_llm_reply ev \<or> splitter_processed ev")
    case True
    with h show ?thesis by (auto simp: on_decorating_result_def split: if_splits)
  next
    case False
    with h show ?thesis
      by (auto simp: on_decorating_result_def Let_def split: option.splits if_splits)
  qed
  then show "on_decorating_result cfg' ok' ev1 = Some (ev1, [])"
    by (auto simp: on_decorating_result_def)
qed

theorem guards_make_noop_witness:
  "on_decorating_result default_config always_ok
     \<lparr>is_llm_reply = False, splitter_processed = False, result_chain = Some [Plain [0x61, 0x3002, 0x62]]\<rparr> =
     Some (\<lparr>is_llm_reply = False, splitter_processed = False,
             result_chain = Some [Plain [0x61, 0x3002, 0x62]]\<rparr>, []) \<and>
   (\<exists>ev'. on_decorating_result default_config always_ok
       \<lparr>is_llm_reply = True, splitter_processed = False, result_chain = Some []\<rparr> = Some (ev', []) \<and>
       result_chain ev' = Some []) \<and>
   on_decorating_result default_config always_ok
     \<lparr>is_llm_reply = True, splitter_processed = False, result_chain = Some [Plain [0x61, 0x3002, 0x62]]\<rparr> =
     Some (\<lparr>is_llm_reply = True, splitter_processed = True, result_chain = Some []\<rparr>,
           [Send 0 [Plain [0x61, 0x3002]], Sleep 0 [0x61, 0x3002], Send 1 [Plain [0x62]]]) \<and>
   on_decorating_result default_config always_ok
     \<lparr>is_llm_reply = True, splitter_processed = True, result_chain = Some []\<rparr> =
     Some (\<lparr>is_llm_reply = True, splitter_processed = True, result_chain = Some []\<rparr>, [])"
proof -
  let ?e0 = "\<lparr>is_llm_reply = False, splitter_processed = False, result_chain = Some [Plain [0x61, 0x3002, 0x62]]\<rparr>"
  let ?e1 = "\<lparr>is_llm_reply = True, splitter_processed = False, result_chain = Some []\<rparr>"
  let ?e2 = "\<lparr>is_llm_reply = True, splitter_processed = False, result_chain = Some [Plain [0x61, 0x3002, 0x62]]\<rparr>"
  let ?e3 = "\<lparr>is_llm_reply = True, splitter_processed = True, result_chain = Some []\<rparr>"
  let ?tr = "[Send 0 [Plain [0x61, 0x3002]], Sleep 0 [0x61, 0x3002], Send 1 [Plain [0x62]]]"
  have a: "\<not> is_llm_reply ?e0 \<or> splitter_processed ?e0" by simp
  have b: "result_chain ?e1 = None \<or> result_chain ?e1 = Some []" by simp
  have c: "on_decorating_result default_config always_ok ?e2 = Some (?e3, ?tr)"
    by (simp add: handler_eval smart_eval regex_eval)
  from guards_make_noop [of ?e0 default_config always_ok] a
  have 1: "on_decorating_result default_config always_ok ?e0 = Some (?e0, [])" by blast
  from guards_make_noop [of ?e1 default_config always_ok] b
  have 2: "\<exists>ev'. on_decorating_result default_config always_ok ?e1 = Some (ev', []) \<and>
       result_chain ev' = Some []" by simp
  from guards_make_noop [of ?e2 default_config always_ok ?e3 ?tr default_config always_ok] c
  have 3: "on_decorating_result default_config always_ok ?e3 = Some (?e3, [])" by blast
  from 1 2 3 c show ?thesis by blast
qed

text \<open>
  Claim C10. After a send that returned in iteration \<open>i\<close>, the delay is awaited
  exactly when \<open>i\<close> is below the last index of the capped segment list, whether or not
  a later segment is sent. With a cleanup pattern that removes the full stop and the two
  segments \<open>a\<close> with a full stop and a lone full stop, the second segment is skipped and
  the trace still ends with the delay after the only send.
\<close>

theorem delay_iff_not_last_position:
  "(Send i c \<in> set (dispatch clean_pattern ok segments) \<and> ok i \<longrightarrow>
      ((\<exists>t. Sleep i t \<in> set (dispatch clean_pattern ok segments)) \<longleftrightarrow>
       int i < int (length segments) - 1)) \<and>
   on_decorating_result (default_config\<lparr>clean_regex := Some (pat_class_plus [0x3002])\<rparr>) always_ok
     \<lparr>is_llm_reply = True, splitter_processed = False,
      result_chain = Some [Plain [0x61, 0x3002], Plain [0x3002]]\<rparr> =
     Some (\<lparr>is_llm_reply = True, splitter_processed = True, result_chain = Some []\<rparr>,
           [Send 0 [Plain [0x61]], Sleep 0 [0x61]])"
proof (intro conjI impI)
  assume h: "Send i c \<in> set (dispatch clean_pattern ok segments) \<and> ok i"
  let ?n = "length segments"
  from h obtain k where k: "k < ?n" "Send i c \<in> set (dispatch_body clean_pattern ok ?n k (segments ! k))"
    by (auto simp: dispatch_set)
  then have ki: "k = i" by (auto dest: body_send_index)
  have "(\<exists>t. Sleep i t \<in> set (dispatch clean_pattern ok segments)) \<longleftrightarrow>
        (\<exists>t. Sleep i t \<in> set (dispatch_body clean_pattern ok ?n i (segments ! i)))"
    using k ki by (auto simp: dispatch_set dest: body_sleep_index)
  also have "\<dots> \<longleftrightarrow> int i < int ?n - 1"
    using k ki h by (intro body_sleep_iff) auto
  finally show "(\<exists>t. Sleep i t \<in> set (dispatch clean_pattern ok segments)) \<longleftrightarrow>
       int i < int (length segments) - 1" .
next
  show "on_decorating_result (default_config\<lparr>clean_regex := Some (pat_class_plus [0x3002])\<rparr>) always_ok
     \<lparr>is_llm_reply = True, splitter_processed = False,
      result_chain = Some [Plain [0x61, 0x3002], Plain [0x3002]]\<rparr> =
     Some (\<lparr>is_llm_reply = True, splitter_processed = True, result_chain = Some []\<rparr>,
           [Send 0 [Plain [0x61]], Sleep 0 [0x61]])"
    by (simp add: handler_eval smart_eval regex_eval)
qed

theorem delay_iff_not_last_position_witness:
  "dispatch (Some (pat_class_plus [0x3002])) always_ok [[Plain [0x61, 0x3002]], [Plain [0x3002]]] =
     [Send 0 [Plain [0x61]], Sleep 0 [0x61]] \<and>
   (\<exists>t. Sleep 0 t \<in> set (dispatch (Some (pat_class_plus [0x3002])) always_ok
                            [[Plain [0x61, 0x3002]], [Plain [0x3002]]]))"
proof -
  let ?segs = "[[Plain [0x61, 0x3002]], [Plain [0x3002]]]"
  let ?cp = "Some (pat_class_plus [0x3002])"
  have d: "dispatch ?cp always_ok ?segs = [Send 0 [Plain [0x61]], Sleep 0 [0x61]]"
    by (simp add: handler_eval regex_eval)
  then have a: "Send 0 [Plain [0x61]] \<in> set (dispatch ?cp always_ok ?segs) \<and> always_ok 0"
    by (simp add: always_ok_def)
  have b: "int 0 < int (length ?segs) - 1" by simp
  from delay_iff_not_last_position [of 0 "[Plain [0x61]]" ?cp always_ok ?segs] a b
  have "\<exists>t. Sleep 0 t \<in> set (dispatch ?cp always_ok ?segs)" by blast
  with d show ?thesis by blast
qed

end
